theory Spec2Isabelle
  imports Main "HOL-Library.AList"
begin

section \<open>JavaScript values as the generated client handles them\<close>

text \<open>
  The repository is one generator script, \<^verbatim>\<open>generate_phase1.py\<close>, whose payload is the
  TypeScript of a client-side synchronisation layer. The definitions below embed that
  TypeScript: the push handler of \<^verbatim>\<open>src/hooks/useSSE.ts\<close>, the response check of
  \<^verbatim>\<open>src/api/client.ts\<close>, the toast store of \<^verbatim>\<open>src/stores/ui.ts\<close> with the timers of
  \<^verbatim>\<open>src/components/feedback/Toast.tsx\<close>, and the preference store of
  \<^verbatim>\<open>src/stores/preferences.ts\<close>.

  A decoded payload is a JavaScript value. Numbers are only carried around by the
  modelled code, never computed on, so an integer stands for them. An object is its list
  of own enumerable properties in insertion order.
\<close>

datatype js =
    JUndefined
  | JNull
  | JBool bool
  | JNum int
  | JStr string
  | JArr "js list"
  | JObj "(string \<times> js) list"

type_synonym props = "(string \<times> js) list"

text \<open>Truthiness, as \<^verbatim>\<open>old || {}\<close> tests it.\<close>

fun truthy :: "js \<Rightarrow> bool" where
  "truthy JUndefined = False"
| "truthy JNull = False"
| "truthy (JBool b) = b"
| "truthy (JNum n) = (n \<noteq> 0)"
| "truthy (JStr s) = (s \<noteq> [])"
| "truthy (JArr xs) = True"
| "truthy (JObj ps) = True"

text \<open>Decimal rendering of an index, the property name of an array or string element.\<close>

definition digit :: "nat \<Rightarrow> char" where
  "digit d = char_of (48 + d)"

fun dec :: "nat \<Rightarrow> string" where
  "dec n = (if n < 10 then [digit n] else dec (n div 10) @ [digit (n mod 10)])"

declare dec.simps [simp del]

text \<open>
  The own enumerable properties an object spread \<^verbatim>\<open>{...x}\<close> copies: those of an object,
  the indexed elements of an array, the indexed characters of a string, and nothing for
  \<^verbatim>\<open>undefined\<close>, \<^verbatim>\<open>null\<close>, booleans and numbers.
\<close>

fun own_props :: "js \<Rightarrow> props" where
  "own_props (JObj ps) = ps"
| "own_props (JArr xs) = zip (map dec [0..<length xs]) xs"
| "own_props (JStr s) = zip (map dec [0..<length s]) (map (\<lambda>c. JStr [c]) s)"
| "own_props _ = []"

text \<open>
  \<^verbatim>\<open>{...a, ...b}\<close>: starting from \<open>base\<close>, each property of \<open>src\<close> is assigned in turn;
  an assignment to a name already present replaces the value in place, a new name is
  appended.
\<close>

definition spread :: "props \<Rightarrow> props \<Rightarrow> props" where
  "spread base src = fold (\<lambda>(k, v). AList.update k v) src base"

definition get_prop :: "props \<Rightarrow> string \<Rightarrow> js" where
  "get_prop ps k = (case map_of ps k of None \<Rightarrow> JUndefined | Some v \<Rightarrow> v)"

section \<open>The push handler of useSSE\<close>

datatype js_error = SyntaxError | TypeError

text \<open>
  \<^verbatim>\<open>data.id\<close>: reading a property of \<^verbatim>\<open>null\<close> throws; a primitive, an array or an
  object without the property gives \<^verbatim>\<open>undefined\<close>.
\<close>

fun get_id :: "js \<Rightarrow> js_error + js" where
  "get_id JNull = Inl TypeError"
| "get_id JUndefined = Inl TypeError"
| "get_id (JObj ps) = Inr (get_prop ps ''id'')"
| "get_id _ = Inr JUndefined"

type_synonym query_key = "js list"

text \<open>
  Modelled from the spec: the store behind the Request Cache. The source keeps it in the
  \<^verbatim>\<open>QueryClient\<close> of the package \<^verbatim>\<open>@tanstack/react-query\<close>, which is not part of the
  source; of an entry only the value is modelled (section 3: last-known payload, or absent
  if never fetched), addressed by its key, and keys are compared structurally.
\<close>

type_synonym query_data = "query_key \<rightharpoonup> js"

definition getQueryData :: "query_data \<Rightarrow> query_key \<Rightarrow> js" where
  "getQueryData qc key = (case qc key of None \<Rightarrow> JUndefined | Some v \<Rightarrow> v)"

definition setQueryData :: "query_key \<Rightarrow> (js \<Rightarrow> js) \<Rightarrow> query_data \<Rightarrow> query_data" where
  "setQueryData key updater qc =
     (let d = updater (getQueryData qc key)
      in if d = JUndefined then qc else qc(key \<mapsto> d))"

text \<open>The updater \<^verbatim>\<open>(old) => ({ ...(old || {}), ...data })\<close>.\<close>

definition merge_updater :: "js \<Rightarrow> js \<Rightarrow> js" where
  "merge_updater d old =
     JObj (spread (spread [] (own_props (if truthy old then old else JObj []))) (own_props d))"

definition workflow_key :: "js \<Rightarrow> query_key" where
  "workflow_key i = [JStr ''workflows'', i]"

text \<open>
  The body of the listener after decoding: \<^verbatim>\<open>qc.setQueryData(['workflows', data.id], ...)\<close>.
\<close>

definition applyDelta :: "js \<Rightarrow> query_data \<Rightarrow> js_error + query_data" where
  "applyDelta d qc =
     (case get_id d of
        Inl e \<Rightarrow> Inl e
      | Inr i \<Rightarrow> Inr (setQueryData (workflow_key i) (merge_updater d) qc))"

text \<open>
  The listener registered for \<^verbatim>\<open>workflow_update\<close>: \<^verbatim>\<open>JSON.parse\<close> of the frame's data, then
  the cache write. The decoder is a parameter; \<open>None\<close> is the \<^verbatim>\<open>SyntaxError\<close> it throws.
\<close>

definition workflow_update :: "(string \<Rightarrow> js option) \<Rightarrow> string \<Rightarrow> query_data \<Rightarrow> js_error + query_data" where
  "workflow_update JSON_parse payload qc =
     (case JSON_parse payload of
        None \<Rightarrow> Inl SyntaxError
      | Some d \<Rightarrow> applyDelta d qc)"

record message_event =
  ev_type :: string
  ev_data :: string

text \<open>
  The bridge: the cache it writes to, whether its \<^verbatim>\<open>EventSource\<close> is open, and the
  exceptions that escaped a listener. An exception thrown by a listener is reported by
  the event loop and ends that listener call only.
\<close>

record bridge =
  cache :: query_data
  es_open :: bool
  uncaught :: "js_error list"

definition dispatch :: "(string \<Rightarrow> js option) \<Rightarrow> message_event \<Rightarrow> bridge \<Rightarrow> bridge" where
  "dispatch JSON_parse e s =
     (if \<not> es_open s then s
      else if ev_type e = ''workflow_update'' then
        (case workflow_update JSON_parse (ev_data e) (cache s) of
           Inl err \<Rightarrow> s\<lparr>uncaught := uncaught s @ [err]\<rparr>
         | Inr qc \<Rightarrow> s\<lparr>cache := qc\<rparr>)
      else s)"

text \<open>The cleanup of the effect, \<^verbatim>\<open>es.close()\<close>.\<close>

definition close :: "bridge \<Rightarrow> bridge" where
  "close s = s\<lparr>es_open := False\<rparr>"

text \<open>Frames are handled one by one in arrival order.\<close>

definition receive :: "(string \<Rightarrow> js option) \<Rightarrow> message_event list \<Rightarrow> bridge \<Rightarrow> bridge" where
  "receive JSON_parse es s = fold (dispatch JSON_parse) es s"

section \<open>The response check of the API client\<close>

text \<open>
  A response as \<^verbatim>\<open>parse\<close> sees it: the status code and the body. Reading the body
  (\<^verbatim>\<open>res.text()\<close>, \<^verbatim>\<open>res.json()\<close>) can itself fail when the transfer breaks; \<open>None\<close> is
  that case.
\<close>

record response =
  status :: nat
  body_text :: "string option"

text \<open>\<^verbatim>\<open>res.ok\<close>: the status is in the range 200 to 299.\<close>

definition ok :: "response \<Rightarrow> bool" where
  "ok res = (200 \<le> status res \<and> status res \<le> 299)"

text \<open>
  \<^verbatim>\<open>class ApiError extends Error { constructor(public status: number, message: string) }\<close>
  next to whatever else the call can throw.
\<close>

datatype failure = ApiError nat string | Thrown js_error

text \<open>
  \<^verbatim>\<open>if (!res.ok) throw new ApiError(res.status, await res.text()); return res.json();\<close>
\<close>

definition parse :: "(string \<Rightarrow> js option) \<Rightarrow> response \<Rightarrow> failure + js" where
  "parse JSON_parse res =
     (if \<not> ok res then
        (case body_text res of
           None \<Rightarrow> Inl (Thrown TypeError)
         | Some t \<Rightarrow> Inl (ApiError (status res) t))
      else
        (case body_text res of
           None \<Rightarrow> Inl (Thrown TypeError)
         | Some t \<Rightarrow>
             (case JSON_parse t of
                None \<Rightarrow> Inl (Thrown SyntaxError)
              | Some v \<Rightarrow> Inr v)))"

definition API_BASE :: string where
  "API_BASE = ''/api''"

text \<open>
  \<^verbatim>\<open>apiGet\<close>: the network call is a parameter; it either fails or delivers a response.
\<close>

definition apiGet :: "(string \<Rightarrow> js_error + response) \<Rightarrow> (string \<Rightarrow> js option) \<Rightarrow> string \<Rightarrow> failure + js" where
  "apiGet fetch JSON_parse path =
     (case fetch (API_BASE @ path) of
        Inl e \<Rightarrow> Inl (Thrown e)
      | Inr res \<Rightarrow> parse JSON_parse res)"

section \<open>The preference store\<close>

text \<open>
  The store's state is the object \<^verbatim>\<open>{ theme: 'dark', tableDensity: 'comfortable', setDensity }\<close>;
  the function field never changes and is left out.
\<close>

definition initial_prefs :: props where
  "initial_prefs = [(''theme'', JStr ''dark''), (''tableDensity'', JStr ''comfortable'')]"

datatype density = compact | comfortable

fun density_name :: "density \<Rightarrow> string" where
  "density_name compact = ''compact''"
| "density_name comfortable = ''comfortable''"

text \<open>
  Modelled from the spec: the \<^verbatim>\<open>set\<close> handed to the store's creator by the package
  \<^verbatim>\<open>zustand\<close>, which is not part of the source. It updates the in-memory state: the
  fields of the partial state replace the fields of the same name, every other field
  stays.
\<close>

definition zset :: "props \<Rightarrow> props \<Rightarrow> props" where
  "zset partial st = spread st partial"

text \<open>
  Modelled from the spec: the durable slot and the \<^verbatim>\<open>persist\<close> wrapper of
  \<^verbatim>\<open>zustand/middleware\<close>, which is not part of the source. Section 6: a single named
  slot holding the serialised preference mapping, read at startup, written on every set;
  section 4.5: missing or corrupt durable state degrades to the defaults field by field.
  The storage maps slot names to text; the serialiser and its inverse are parameters.
\<close>

record pref_store =
  state :: props
  storage :: "string \<rightharpoonup> string"

definition slot_name :: string where
  "slot_name = ''adops-preferences''"

definition persist_set :: "(props \<Rightarrow> string) \<Rightarrow> props \<Rightarrow> pref_store \<Rightarrow> pref_store" where
  "persist_set ser partial s =
     (let st = zset partial (state s)
      in \<lparr>state = st, storage = (storage s)(slot_name \<mapsto> ser st)\<rparr>)"

definition hydrate :: "(string \<Rightarrow> props option) \<Rightarrow> (string \<rightharpoonup> string) \<Rightarrow> props" where
  "hydrate deser sto =
     (case sto slot_name of
        None \<Rightarrow> initial_prefs
      | Some txt \<Rightarrow>
          (case deser txt of
             None \<Rightarrow> initial_prefs
           | Some saved \<Rightarrow> spread initial_prefs saved))"

text \<open>A restart loses the in-memory state and seeds it again from the slot.\<close>

definition restart :: "(string \<Rightarrow> props option) \<Rightarrow> pref_store \<Rightarrow> pref_store" where
  "restart deser s = \<lparr>state = hydrate deser (storage s), storage = storage s\<rparr>"

text \<open>\<^verbatim>\<open>setDensity: (d) => set({ tableDensity: d })\<close>, through the persisting \<^verbatim>\<open>set\<close>.\<close>

definition setDensity :: "(props \<Rightarrow> string) \<Rightarrow> density \<Rightarrow> pref_store \<Rightarrow> pref_store" where
  "setDensity ser d s = persist_set ser [(''tableDensity'', JStr (density_name d))] s"

text \<open>
  Modelled from the spec: the contract \<^verbatim>\<open>get(name, default)\<close> and \<^verbatim>\<open>set(name, value)\<close> of
  section 4.5, which the source has no function for: reading a named setting with a
  default for an absent one, and writing one named setting.
\<close>

definition get_pref :: "string \<Rightarrow> js \<Rightarrow> pref_store \<Rightarrow> js" where
  "get_pref name dflt s = (case map_of (state s) name of None \<Rightarrow> dflt | Some v \<Rightarrow> v)"

definition set_pref :: "(props \<Rightarrow> string) \<Rightarrow> string \<Rightarrow> js \<Rightarrow> pref_store \<Rightarrow> pref_store" where
  "set_pref ser name v s = persist_set ser [(name, v)] s"

section \<open>The toast store and its timers\<close>

datatype toast_type = info | success | error

text \<open>\<^verbatim>\<open>type ToastItem = { id: string; message: string; type: 'info' | 'success' | 'error' }\<close>\<close>

record ToastItem =
  toast_id :: string
  toast_message :: string
  toast_kind :: toast_type

record UIState =
  sidebarCollapsed :: bool
  toasts :: "ToastItem list"

definition initial_ui :: UIState where
  "initial_ui = \<lparr>sidebarCollapsed = False, toasts = []\<rparr>"

definition toggleSidebar :: "UIState \<Rightarrow> UIState" where
  "toggleSidebar s = s\<lparr>sidebarCollapsed := \<not> sidebarCollapsed s\<rparr>"

text \<open>
  \<^verbatim>\<open>addToast\<close>; the identifier is what \<^verbatim>\<open>crypto.randomUUID()\<close> returned for this call.
\<close>

definition addToast :: "string \<Rightarrow> string \<Rightarrow> toast_type \<Rightarrow> UIState \<Rightarrow> UIState" where
  "addToast uuid message ty s =
     s\<lparr>toasts := toasts s @ [\<lparr>toast_id = uuid, toast_message = message, toast_kind = ty\<rparr>]\<rparr>"

definition removeToast :: "string \<Rightarrow> UIState \<Rightarrow> UIState" where
  "removeToast i s = s\<lparr>toasts := filter (\<lambda>t. toast_id t \<noteq> i) (toasts s)\<rparr>"

text \<open>
  The mounted \<^verbatim>\<open>Toast\<close> component with the timers it has set and the clock, in
  milliseconds. A pending timer is the time it is due and the identifier its callback
  removes.
\<close>

record runtime =
  ui :: UIState
  timers :: "(nat \<times> string) list"
  now :: nat

definition mounted :: runtime where
  "mounted = \<lparr>ui = initial_ui, timers = [], now = 0\<rparr>"

definition lifetime :: nat where
  "lifetime = 5000"

text \<open>
  The effect \<^verbatim>\<open>toasts.forEach((t) => setTimeout(() => removeToast(t.id), 5000))\<close>. Its
  dependency is the \<^verbatim>\<open>toasts\<close> array, and it has no cleanup: it runs again, for every
  toast then in the list, each time \<^verbatim>\<open>addToast\<close> or \<^verbatim>\<open>removeToast\<close> has put a new array in
  the store.
\<close>

definition Toast_effect :: "runtime \<Rightarrow> runtime" where
  "Toast_effect r = r\<lparr>timers := timers r @ map (\<lambda>t. (now r + lifetime, toast_id t)) (toasts (ui r))\<rparr>"

definition do_addToast :: "string \<Rightarrow> string \<Rightarrow> toast_type \<Rightarrow> runtime \<Rightarrow> runtime" where
  "do_addToast uuid message ty r = Toast_effect (r\<lparr>ui := addToast uuid message ty (ui r)\<rparr>)"

definition do_removeToast :: "string \<Rightarrow> runtime \<Rightarrow> runtime" where
  "do_removeToast i r = Toast_effect (r\<lparr>ui := removeToast i (ui r)\<rparr>)"

text \<open>
  One millisecond passes: the timers now due leave the queue and their callbacks run in
  the order the timers were set. A callback sets new timers, none of them due yet.
\<close>

definition tick :: "runtime \<Rightarrow> runtime" where
  "tick r =
     (let t = now r + 1;
          due = filter (\<lambda>(d, i). d \<le> t) (timers r);
          rest = filter (\<lambda>(d, i). \<not> d \<le> t) (timers r)
      in fold (\<lambda>(d, i). do_removeToast i) due (r\<lparr>timers := rest, now := t\<rparr>))"

primrec advance :: "nat \<Rightarrow> runtime \<Rightarrow> runtime" where
  "advance 0 r = r"
| "advance (Suc n) r = advance n (tick r)"

text \<open>What can happen to the mounted component, and a history of such events.\<close>

datatype event =
    Push string string toast_type
  | Dismiss string
  | Toggle
  | Wait nat

fun step :: "event \<Rightarrow> runtime \<Rightarrow> runtime" where
  "step (Push uuid message ty) r = do_addToast uuid message ty r"
| "step (Dismiss i) r = do_removeToast i r"
| "step Toggle r = r\<lparr>ui := toggleSidebar (ui r)\<rparr>"
| "step (Wait n) r = advance n r"

definition run :: "event list \<Rightarrow> runtime \<Rightarrow> runtime" where
  "run evs r = fold step evs r"

fun elapsed :: "event list \<Rightarrow> nat" where
  "elapsed [] = 0"
| "elapsed (Wait n # evs) = n + elapsed evs"
| "elapsed (_ # evs) = elapsed evs"

fun pushes :: "event list \<Rightarrow> string set" where
  "pushes [] = {}"
| "pushes (Push uuid message ty # evs) = insert uuid (pushes evs)"
| "pushes (_ # evs) = pushes evs"

definition shown :: "runtime \<Rightarrow> string set" where
  "shown r = toast_id ` set (toasts (ui r))"

text \<open>
  Invariants of the histories: every pending timer lies in the future; a toast with
  identifier \<open>i\<close> that is still shown has a timer due by \<open>D\<close>; from time \<open>T\<close> on, every
  timer for \<open>i\<close> is due at \<open>T + lifetime\<close> or later and the toast is shown until then; an
  identifier never pushed is neither shown nor awaited by a timer.
\<close>

definition pending :: "runtime \<Rightarrow> (nat \<times> string) set" where
  "pending r = set (timers r)"

definition future :: "runtime \<Rightarrow> bool" where
  "future r = (\<forall>(d, j) \<in> pending r. now r < d)"

definition expiring :: "string \<Rightarrow> nat \<Rightarrow> runtime \<Rightarrow> bool" where
  "expiring i D r = (future r \<and> (i \<in> shown r \<longrightarrow> (\<exists>d \<le> D. (d, i) \<in> pending r)))"

definition kept :: "string \<Rightarrow> nat \<Rightarrow> runtime \<Rightarrow> bool" where
  "kept i T r =
     (T \<le> now r \<and> (\<forall>(d, j) \<in> pending r. j = i \<longrightarrow> T + lifetime \<le> d)
      \<and> (now r < T + lifetime \<longrightarrow> i \<in> shown r))"

definition unknown :: "string \<Rightarrow> runtime \<Rightarrow> bool" where
  "unknown i r = (i \<notin> shown r \<and> (\<forall>(d, j) \<in> pending r. j \<noteq> i))"

section \<open>The fetch life cycle of the Request Cache\<close>

text \<open>
  Modelled from the spec: the cache entry and \<^verbatim>\<open>fetch\<close> of the Request Cache. The source
  has no fetch of its own: every hook hands its query to \<^verbatim>\<open>useQuery\<close> of the package
  \<^verbatim>\<open>@tanstack/react-query\<close>, which is not part of the source. Section 3: an entry has a
  value (absent if never fetched), a status (idle, fetching, fresh, stale, error), the
  time of the last fetch and the last failure detail, cleared on the next successful
  fetch. Section 4.1: \<^verbatim>\<open>get\<close> returns the current entry, possibly idle; \<^verbatim>\<open>fetch\<close> on a
  fetching entry attaches to the operation in flight and does not invoke the loader;
  otherwise it invokes the loader and marks the entry fetching; on completion the entry
  becomes fresh with the result and the time, on failure it gets status error, keeps its
  value and records the failure. Section 5: the operations run one at a time, so calls
  made concurrently are an interleaving of the events below.
\<close>

datatype entry_status = Idle | Fetching | Fresh | Stale | Error

record CacheEntry =
  entry_value :: "js option"
  entry_status :: entry_status
  lastFetchedAt :: "nat option"
  entry_error :: "failure option"

definition idle_entry :: CacheEntry where
  "idle_entry = \<lparr>entry_value = None, entry_status = Idle, lastFetchedAt = None, entry_error = None\<rparr>"

text \<open>
  Next to the entries, the cache counts per key the loader invocations begun and those
  still running.
\<close>

record request_cache =
  entries :: "query_key \<Rightarrow> CacheEntry"
  in_flight :: "query_key \<Rightarrow> nat"
  loader_calls :: "query_key \<Rightarrow> nat"

definition empty_cache :: request_cache where
  "empty_cache = \<lparr>entries = (\<lambda>k. idle_entry), in_flight = (\<lambda>k. 0), loader_calls = (\<lambda>k. 0)\<rparr>"

definition get_entry :: "query_key \<Rightarrow> request_cache \<Rightarrow> CacheEntry" where
  "get_entry k c = entries c k"

definition cache_fetch :: "query_key \<Rightarrow> request_cache \<Rightarrow> request_cache" where
  "cache_fetch k c =
     (if entry_status (entries c k) = Fetching then c
      else c\<lparr>entries := (entries c)(k := (entries c k)\<lparr>entry_status := Fetching\<rparr>),
             in_flight := (in_flight c)(k := in_flight c k + 1),
             loader_calls := (loader_calls c)(k := loader_calls c k + 1)\<rparr>)"

text \<open>
  The loader of the operation in flight for \<open>k\<close> returns at time \<open>t\<close>, with a result or a
  failure. Without an operation in flight there is nothing to complete.
\<close>

definition settle :: "query_key \<Rightarrow> failure + js \<Rightarrow> nat \<Rightarrow> request_cache \<Rightarrow> request_cache" where
  "settle k outcome t c =
     (if in_flight c k = 0 then c
      else
        (let e = entries c k;
             e' = (case outcome of
                     Inr v \<Rightarrow> e\<lparr>entry_value := Some v, entry_status := Fresh,
                                lastFetchedAt := Some t, entry_error := None\<rparr>
                   | Inl f \<Rightarrow> e\<lparr>entry_status := Error, entry_error := Some f\<rparr>)
         in c\<lparr>entries := (entries c)(k := e'),
               in_flight := (in_flight c)(k := in_flight c k - 1)\<rparr>))"

text \<open>The freshness window of a fresh entry runs out.\<close>

definition go_stale :: "query_key \<Rightarrow> request_cache \<Rightarrow> request_cache" where
  "go_stale k c =
     (if entry_status (entries c k) = Fresh
      then c\<lparr>entries := (entries c)(k := (entries c k)\<lparr>entry_status := Stale\<rparr>)\<rparr>
      else c)"

datatype cache_event =
    Fetch query_key
  | Settle query_key "failure + js" nat
  | GoStale query_key

fun cache_step :: "cache_event \<Rightarrow> request_cache \<Rightarrow> request_cache" where
  "cache_step (Fetch k) c = cache_fetch k c"
| "cache_step (Settle k outcome t) c = settle k outcome t c"
| "cache_step (GoStale k) c = go_stale k c"

definition cache_run :: "cache_event list \<Rightarrow> request_cache \<Rightarrow> request_cache" where
  "cache_run evs c = fold cache_step evs c"

text \<open>
  The invariant of section 3: at most one loader runs per key, and one runs exactly
  when the entry is fetching.
\<close>

definition single_flight :: "request_cache \<Rightarrow> bool" where
  "single_flight c =
     (\<forall>k. in_flight c k \<le> 1 \<and> (in_flight c k = 1 \<longleftrightarrow> entry_status (entries c k) = Fetching))"

section \<open>Properties of the object spread\<close>

lemma fold_update_map_of:
  "map_of (fold (\<lambda>(k, v). AList.update k v) src base) = map_of base ++ map_of (rev src)"
proof (induction src arbitrary: base)
  case Nil
  show ?case by simp
next
  case (Cons p src)
  obtain k v where p: "p = (k, v)" by (cases p)
  have "map_of (fold (\<lambda>(k, v). AList.update k v) (p # src) base)
      = map_of (AList.update k v base) ++ map_of (rev src)"
    using Cons.IH[of "AList.update k v base"] by (simp add: p)
  also have "\<dots> = (map_of base)(k \<mapsto> v) ++ map_of (rev src)"
    by (simp only: update_conv')
  also have "\<dots> = map_of base ++ ([k \<mapsto> v] ++ map_of (rev src))"
    by (rule ext) (simp add: map_add_def split: option.splits)
  also have "[k \<mapsto> v] ++ map_of (rev src) = map_of (rev (p # src))"
    by (rule ext) (simp add: p map_add_def split: option.splits)
  finally show ?case .
qed

lemma map_of_rev_distinct: "distinct (map fst ps) \<Longrightarrow> map_of (rev ps) = map_of ps"
  by (rule map_of_inject_set[THEN iffD2]) (simp_all add: distinct_rev rev_map[symmetric])

lemma map_of_spread:
  "distinct (map fst src) \<Longrightarrow> map_of (spread base src) = map_of base ++ map_of src"
  by (simp add: spread_def fold_update_map_of map_of_rev_distinct)

lemma update_fresh: "k \<notin> fst ` set base \<Longrightarrow> AList.update k v base = base @ [(k, v)]"
  by (induction base) auto

lemma spread_fresh:
  "distinct (map fst src) \<Longrightarrow> fst ` set base \<inter> fst ` set src = {} \<Longrightarrow> spread base src = base @ src"
  unfolding spread_def
proof (induction src arbitrary: base)
  case Nil
  show ?case by simp
next
  case (Cons p src)
  obtain k v where p: "p = (k, v)" by (cases p)
  have upd: "AList.update k v base = base @ [(k, v)]"
    using Cons.prems(2) by (intro update_fresh) (auto simp: p)
  have "fst ` set (base @ [(k, v)]) \<inter> fst ` set src = {}"
    using Cons.prems by (auto simp: p)
  then have "fold (\<lambda>(k, v). AList.update k v) src (base @ [(k, v)]) = (base @ [(k, v)]) @ src"
    using Cons.prems(1) by (intro Cons.IH) simp_all
  then show ?case by (simp add: p upd)
qed

lemma spread_Nil: "distinct (map fst src) \<Longrightarrow> spread [] src = src"
  using spread_fresh[of src "[]"] by simp

lemma distinct_spread: "distinct (map fst base) \<Longrightarrow> distinct (map fst (spread base src))"
  unfolding spread_def
  by (induction src arbitrary: base) (auto simp: distinct_update)

section \<open>Applying a delta\<close>

lemma applyDelta_obj:
  "applyDelta (JObj patch) qc =
     Inr (qc(workflow_key (get_prop patch ''id'') \<mapsto>
        merge_updater (JObj patch) (getQueryData qc (workflow_key (get_prop patch ''id'')))))"
  by (simp add: applyDelta_def setQueryData_def merge_updater_def Let_def)

text \<open>
  C1. A delta whose payload is the object \<open>patch\<close> is merged shallowly into the value of
  the entry it addresses: the new value has every field of the patch with the patch's
  value and every other field with its previous value; when the key has no entry, the
  value is the patch alone; and applying \<^verbatim>\<open>{a:1}\<close> and then \<^verbatim>\<open>{b:2}\<close> to an empty cache leaves
  the value \<^verbatim>\<open>{a:1, b:2}\<close>.
\<close>

theorem applyDelta_shallow_merge:
  assumes "distinct (map fst patch)"
  shows "(\<forall>old. distinct (map fst old) \<and> qc (workflow_key (get_prop patch ''id'')) = Some (JObj old) \<longrightarrow>
            (\<exists>new. applyDelta (JObj patch) qc = Inr (qc(workflow_key (get_prop patch ''id'') \<mapsto> JObj new))
                \<and> map_of new = map_of old ++ map_of patch
                \<and> (\<forall>f v. map_of patch f = Some v \<longrightarrow> map_of new f = Some v)
                \<and> (\<forall>f. map_of patch f = None \<longrightarrow> map_of new f = map_of old f)))
       \<and> (qc (workflow_key (get_prop patch ''id'')) = None \<longrightarrow>
            applyDelta (JObj patch) qc = Inr (qc(workflow_key (get_prop patch ''id'') \<mapsto> JObj patch)))
       \<and> (\<exists>q1. applyDelta (JObj [(''a'', JNum 1)]) Map.empty = Inr q1
            \<and> applyDelta (JObj [(''b'', JNum 2)]) q1 =
                Inr [workflow_key JUndefined \<mapsto> JObj [(''a'', JNum 1), (''b'', JNum 2)]])"
proof (intro conjI allI impI)
  fix old
  assume h: "distinct (map fst old) \<and> qc (workflow_key (get_prop patch ''id'')) = Some (JObj old)"
  let ?new = "spread (spread [] old) patch"
  have 1: "applyDelta (JObj patch) qc = Inr (qc(workflow_key (get_prop patch ''id'') \<mapsto> JObj ?new))"
    using h by (simp add: applyDelta_obj getQueryData_def merge_updater_def)
  have 2: "map_of ?new = map_of old ++ map_of patch"
    using h assms by (simp add: map_of_spread)
  show "\<exists>new. applyDelta (JObj patch) qc = Inr (qc(workflow_key (get_prop patch ''id'') \<mapsto> JObj new))
                \<and> map_of new = map_of old ++ map_of patch
                \<and> (\<forall>f v. map_of patch f = Some v \<longrightarrow> map_of new f = Some v)
                \<and> (\<forall>f. map_of patch f = None \<longrightarrow> map_of new f = map_of old f)"
    using 1 2 by (intro exI[of _ ?new]) (simp add: map_add_def)
next
  assume "qc (workflow_key (get_prop patch ''id'')) = None"
  then show "applyDelta (JObj patch) qc = Inr (qc(workflow_key (get_prop patch ''id'') \<mapsto> JObj patch))"
    using assms by (simp add: applyDelta_obj getQueryData_def merge_updater_def spread_Nil)
next
  show "\<exists>q1. applyDelta (JObj [(''a'', JNum 1)]) Map.empty = Inr q1
            \<and> applyDelta (JObj [(''b'', JNum 2)]) q1 =
                Inr [workflow_key JUndefined \<mapsto> JObj [(''a'', JNum 1), (''b'', JNum 2)]]"
    by (simp add: applyDelta_obj getQueryData_def merge_updater_def spread_def get_prop_def)
qed

theorem applyDelta_shallow_merge_witness:
  "distinct (map fst [(''id'', JStr ''w1''), (''status'', JStr ''done'')]) \<and>
   (\<exists>new. applyDelta (JObj [(''id'', JStr ''w1''), (''status'', JStr ''done'')])
            [workflow_key (JStr ''w1'') \<mapsto> JObj [(''id'', JStr ''w1''), (''status'', JStr ''running''), (''name'', JStr ''n'')]]
          = Inr [workflow_key (JStr ''w1'') \<mapsto> JObj new]
      \<and> map_of new ''status'' = Some (JStr ''done'')
      \<and> map_of new ''name'' = Some (JStr ''n''))"
proof -
  let ?patch = "[(''id'', JStr ''w1''), (''status'', JStr ''done'')]"
  let ?old = "[(''id'', JStr ''w1''), (''status'', JStr ''running''), (''name'', JStr ''n'')]"
  let ?qc = "[workflow_key (JStr ''w1'') \<mapsto> JObj ?old]"
  have d: "distinct (map fst ?patch)" by simp
  have k: "workflow_key (get_prop ?patch ''id'') = workflow_key (JStr ''w1'')"
    by (simp add: get_prop_def)
  have pre: "distinct (map fst ?old) \<and> ?qc (workflow_key (get_prop ?patch ''id'')) = Some (JObj ?old)"
    by (simp add: k)
  from applyDelta_shallow_merge[OF d, of ?qc]
  have "\<forall>old. distinct (map fst old) \<and> ?qc (workflow_key (get_prop ?patch ''id'')) = Some (JObj old) \<longrightarrow>
            (\<exists>new. applyDelta (JObj ?patch) ?qc = Inr (?qc(workflow_key (get_prop ?patch ''id'') \<mapsto> JObj new))
                \<and> map_of new = map_of old ++ map_of ?patch
                \<and> (\<forall>f v. map_of ?patch f = Some v \<longrightarrow> map_of new f = Some v)
                \<and> (\<forall>f. map_of ?patch f = None \<longrightarrow> map_of new f = map_of old f))"
    by (rule conjunct1)
  then obtain new where
    n: "applyDelta (JObj ?patch) ?qc = Inr (?qc(workflow_key (get_prop ?patch ''id'') \<mapsto> JObj new))"
       "map_of new = map_of ?old ++ map_of ?patch"
    using pre by blast
  have "map_of new ''status'' = Some (JStr ''done'')" "map_of new ''name'' = Some (JStr ''n'')"
    by (simp_all add: n(2))
  moreover have "applyDelta (JObj ?patch) ?qc = Inr [workflow_key (JStr ''w1'') \<mapsto> JObj new]"
    using n(1) by (simp add: k)
  ultimately show ?thesis using d by blast
qed

section \<open>The push bridge\<close>

lemma dispatch_malformed:
  "JSON_parse (ev_data e) = None \<Longrightarrow>
   cache (dispatch JSON_parse e s) = cache s \<and> es_open (dispatch JSON_parse e s) = es_open s"
  by (simp add: dispatch_def workflow_update_def)

lemma dispatch_valid:
  "es_open s \<Longrightarrow> ev_type e = ''workflow_update'' \<Longrightarrow> JSON_parse (ev_data e) = Some d \<Longrightarrow>
   applyDelta d (cache s) = Inr qc \<Longrightarrow> dispatch JSON_parse e s = s\<lparr>cache := qc\<rparr>"
  by (simp add: dispatch_def workflow_update_def)

lemma dispatch_cong:
  "cache s = cache t \<Longrightarrow> es_open s = es_open t \<Longrightarrow>
   cache (dispatch JSON_parse e s) = cache (dispatch JSON_parse e t)
   \<and> es_open (dispatch JSON_parse e s) = es_open (dispatch JSON_parse e t)"
  by (simp add: dispatch_def split: sum.splits)

lemma receive_cong:
  "cache s = cache t \<Longrightarrow> es_open s = es_open t \<Longrightarrow>
   cache (receive JSON_parse es s) = cache (receive JSON_parse es t)"
  unfolding receive_def
proof (induction es arbitrary: s t)
  case Nil
  then show ?case by simp
next
  case (Cons e es)
  show ?case
    using Cons.IH[of "dispatch JSON_parse e s" "dispatch JSON_parse e t"]
      dispatch_cong[OF Cons.prems, of JSON_parse e]
    by simp
qed

lemma receive_append:
  "receive JSON_parse (xs @ ys) s = receive JSON_parse ys (receive JSON_parse xs s)"
  by (simp add: receive_def)

lemma receive_drop_malformed:
  assumes "JSON_parse (ev_data e) = None"
  shows "cache (receive JSON_parse (xs @ e # ys) s) = cache (receive JSON_parse (xs @ ys) s)"
proof -
  let ?m = "receive JSON_parse xs s"
  have "receive JSON_parse (xs @ e # ys) s = receive JSON_parse ys (dispatch JSON_parse e ?m)"
    by (simp add: receive_def)
  moreover have "cache (receive JSON_parse ys (dispatch JSON_parse e ?m)) = cache (receive JSON_parse ys ?m)"
    using dispatch_malformed[of JSON_parse e ?m] assms by (intro receive_cong) simp_all
  ultimately show ?thesis by (simp add: receive_append)
qed

text \<open>
  C3. A frame whose payload does not decode is dropped alone. For frames \<open>e1\<close>, \<open>e2\<close>,
  \<open>e3\<close> of the handled event type, \<open>e1\<close> and \<open>e3\<close> decoding to deltas that apply and \<open>e2\<close>
  failing to decode, the cache after the three frames holds both deltas, exactly as if
  \<open>e2\<close> had never arrived, the event source is still open, and the only trace of \<open>e2\<close>
  is the reported \<^verbatim>\<open>SyntaxError\<close>. The same holds wherever the undecodable frame stands in
  a stream.
\<close>

theorem malformed_frame_dropped:
  assumes "es_open s"
    and "ev_type e1 = ''workflow_update''" and "JSON_parse (ev_data e1) = Some d1"
    and "applyDelta d1 (cache s) = Inr q1"
    and "ev_type e2 = ''workflow_update''" and "JSON_parse (ev_data e2) = None"
    and "ev_type e3 = ''workflow_update''" and "JSON_parse (ev_data e3) = Some d3"
    and "applyDelta d3 q1 = Inr q3"
  shows "cache (receive JSON_parse [e1, e2, e3] s) = q3
       \<and> cache (receive JSON_parse [e1, e2, e3] s) = cache (receive JSON_parse [e1, e3] s)
       \<and> es_open (receive JSON_parse [e1, e2, e3] s)
       \<and> uncaught (receive JSON_parse [e1, e2, e3] s) = uncaught s @ [SyntaxError]
       \<and> (\<forall>xs ys t. cache (receive JSON_parse (xs @ e2 # ys) t) = cache (receive JSON_parse (xs @ ys) t))"
proof -
  have 1: "dispatch JSON_parse e1 s = s\<lparr>cache := q1\<rparr>"
    using assms by (simp add: dispatch_valid)
  have 2: "dispatch JSON_parse e2 (s\<lparr>cache := q1\<rparr>) = s\<lparr>cache := q1, uncaught := uncaught s @ [SyntaxError]\<rparr>"
    using assms by (simp add: dispatch_def workflow_update_def)
  have 3: "dispatch JSON_parse e3 (s\<lparr>cache := q1, uncaught := uncaught s @ [SyntaxError]\<rparr>)
             = s\<lparr>cache := q3, uncaught := uncaught s @ [SyntaxError]\<rparr>"
    using assms by (simp add: dispatch_def workflow_update_def)
  have 4: "dispatch JSON_parse e3 (s\<lparr>cache := q1\<rparr>) = s\<lparr>cache := q3\<rparr>"
    using assms by (simp add: dispatch_def workflow_update_def)
  have 5: "\<forall>xs ys t. cache (receive JSON_parse (xs @ e2 # ys) t) = cache (receive JSON_parse (xs @ ys) t)"
    using assms(6) by (simp add: receive_drop_malformed)
  show ?thesis using assms(1) 5 by (simp add: receive_def 1 2 3 4)
qed

theorem malformed_frame_dropped_witness:
  "(let P = (\<lambda>s. if s = ''first'' then Some (JObj [(''id'', JStr ''w1''), (''a'', JNum 1)])
                  else if s = ''second'' then Some (JObj [(''id'', JStr ''w1''), (''b'', JNum 2)])
                  else None);
        e1 = \<lparr>ev_type = ''workflow_update'', ev_data = ''first''\<rparr>;
        e2 = \<lparr>ev_type = ''workflow_update'', ev_data = ''{broken''\<rparr>;
        e3 = \<lparr>ev_type = ''workflow_update'', ev_data = ''second''\<rparr>;
        s = \<lparr>cache = Map.empty, es_open = True, uncaught = []\<rparr>
    in cache (receive P [e1, e2, e3] s) =
         [workflow_key (JStr ''w1'') \<mapsto> JObj [(''id'', JStr ''w1''), (''a'', JNum 1), (''b'', JNum 2)]]
       \<and> es_open (receive P [e1, e2, e3] s))"
proof -
  let ?P = "\<lambda>s. if s = ''first'' then Some (JObj [(''id'', JStr ''w1''), (''a'', JNum 1)])
                  else if s = ''second'' then Some (JObj [(''id'', JStr ''w1''), (''b'', JNum 2)])
                  else None"
  let ?e1 = "\<lparr>ev_type = ''workflow_update'', ev_data = ''first''\<rparr>"
  let ?e2 = "\<lparr>ev_type = ''workflow_update'', ev_data = ''{broken''\<rparr>"
  let ?e3 = "\<lparr>ev_type = ''workflow_update'', ev_data = ''second''\<rparr>"
  let ?s = "\<lparr>cache = Map.empty, es_open = True, uncaught = []\<rparr>"
  let ?q1 = "[workflow_key (JStr ''w1'') \<mapsto> JObj [(''id'', JStr ''w1''), (''a'', JNum 1)]]"
  let ?q3 = "[workflow_key (JStr ''w1'') \<mapsto> JObj [(''id'', JStr ''w1''), (''a'', JNum 1), (''b'', JNum 2)]]"
  have a1: "applyDelta (JObj [(''id'', JStr ''w1''), (''a'', JNum 1)]) (cache ?s) = Inr ?q1"
    by (simp add: applyDelta_def setQueryData_def getQueryData_def merge_updater_def spread_def get_prop_def)
  have a3: "applyDelta (JObj [(''id'', JStr ''w1''), (''b'', JNum 2)]) ?q1 = Inr ?q3"
    by (simp add: applyDelta_def setQueryData_def getQueryData_def merge_updater_def spread_def get_prop_def)
  have "cache (receive ?P [?e1, ?e2, ?e3] ?s) = ?q3 \<and> es_open (receive ?P [?e1, ?e2, ?e3] ?s)"
    using malformed_frame_dropped[of ?s ?e1 ?P _ ?q1 ?e2 ?e3 _ ?q3] a1 a3 by simp
  then show ?thesis by (simp only: Let_def)
qed

section \<open>The API client\<close>

text \<open>
  C9. A response whose status is outside 200 to 299 makes \<^verbatim>\<open>parse\<close> fail with an
  \<^verbatim>\<open>ApiError\<close> that carries the status code and the body text; a response inside that range
  gives the decoded payload of its body; \<^verbatim>\<open>apiGet\<close> returns what \<^verbatim>\<open>parse\<close> makes of the
  response it receives.
\<close>

theorem parse_typed_failure:
  assumes "body_text res = Some b"
  shows "(\<not> ok res \<longrightarrow> parse JSON_parse res = Inl (ApiError (status res) b))
       \<and> (ok res \<longrightarrow> (\<forall>v. JSON_parse b = Some v \<longrightarrow> parse JSON_parse res = Inr v))
       \<and> (ok res \<longleftrightarrow> 200 \<le> status res \<and> status res < 300)
       \<and> (fetch (API_BASE @ path) = Inr res \<longrightarrow> apiGet fetch JSON_parse path = parse JSON_parse res)"
  using assms by (auto simp: parse_def ok_def apiGet_def)

theorem parse_typed_failure_witness:
  "body_text \<lparr>status = 404, body_text = Some ''not found''\<rparr> = Some ''not found''
   \<and> parse (\<lambda>t. None) \<lparr>status = 404, body_text = Some ''not found''\<rparr> = Inl (ApiError 404 ''not found'')
   \<and> parse (\<lambda>t. Some (JObj [(''n'', JNum 1)])) \<lparr>status = 200, body_text = Some ''payload''\<rparr>
       = Inr (JObj [(''n'', JNum 1)])"
  using parse_typed_failure[of "\<lparr>status = 404, body_text = Some ''not found''\<rparr>" "''not found''" "\<lambda>t. None"]
        parse_typed_failure[of "\<lparr>status = 200, body_text = Some ''payload''\<rparr>" "''payload''" "\<lambda>t. Some (JObj [(''n'', JNum 1)])"]
  by (simp add: ok_def)

section \<open>The preference store\<close>

lemma zset_single: "map_of (zset [(k, v)] st) = (map_of st)(k \<mapsto> v)"
  by (simp add: zset_def spread_def update_conv')

lemma distinct_zset: "distinct (map fst st) \<Longrightarrow> distinct (map fst (zset partial st))"
  by (simp add: zset_def distinct_spread)

text \<open>
  C10. \<^verbatim>\<open>setDensity(d)\<close> sets \<^verbatim>\<open>tableDensity\<close> to \<open>d\<close> and leaves every other field of the
  store's state, \<^verbatim>\<open>theme\<close> in particular, as it was; on the initial state no field is added.
\<close>

theorem setDensity_frame:
  "map_of (state (setDensity ser d s)) ''tableDensity'' = Some (JStr (density_name d))
   \<and> map_of (state (setDensity ser d s)) ''theme'' = map_of (state s) ''theme''
   \<and> (\<forall>k. k \<noteq> ''tableDensity'' \<longrightarrow> map_of (state (setDensity ser d s)) k = map_of (state s) k)
   \<and> map fst (state (setDensity ser d \<lparr>state = initial_prefs, storage = sto\<rparr>)) = map fst initial_prefs"
  by (simp add: setDensity_def persist_set_def zset_single Let_def)
     (simp add: zset_def spread_def initial_prefs_def)

theorem setDensity_frame_witness:
  "state (setDensity (\<lambda>st. []) compact \<lparr>state = initial_prefs, storage = Map.empty\<rparr>)
     = [(''theme'', JStr ''dark''), (''tableDensity'', JStr ''compact'')]
   \<and> map_of (state (setDensity (\<lambda>st. []) compact \<lparr>state = initial_prefs, storage = Map.empty\<rparr>)) ''theme''
     = Some (JStr ''dark'')"
proof -
  let ?s = "\<lparr>state = initial_prefs, storage = Map.empty\<rparr>"
  have "''theme'' \<noteq> ''tableDensity''" by simp
  with setDensity_frame[of "\<lambda>st. []" compact ?s]
  have "map_of (state (setDensity (\<lambda>st. []) compact ?s)) ''theme'' = map_of (state ?s) ''theme''"
    by blast
  then have "map_of (state (setDensity (\<lambda>st. []) compact ?s)) ''theme'' = Some (JStr ''dark'')"
    by (simp add: initial_prefs_def)
  moreover have "state (setDensity (\<lambda>st. []) compact ?s) = [(''theme'', JStr ''dark''), (''tableDensity'', JStr ''compact'')]"
    by (simp add: setDensity_def persist_set_def zset_def spread_def initial_prefs_def Let_def)
  ultimately show ?thesis by simp
qed

lemma hydrate_saved:
  "sto slot_name = Some txt \<Longrightarrow> deser txt = Some saved \<Longrightarrow> hydrate deser sto = spread initial_prefs saved"
  by (simp add: hydrate_def)

text \<open>
  C6. A preference write survives a restart: after writing \<open>v\<close> under \<open>name\<close> and seeding
  the state again from the durable slot, reading \<open>name\<close> gives \<open>v\<close> whatever the default,
  provided the slot's text decodes back to the state that was written; \<^verbatim>\<open>setDensity\<close> is
  such a write of \<^verbatim>\<open>tableDensity\<close>.
\<close>

theorem preference_survives_restart:
  assumes "distinct (map fst (state s))"
    and "deser (ser (zset [(name, v)] (state s))) = Some (zset [(name, v)] (state s))"
  shows "get_pref name dflt (restart deser (set_pref ser name v s)) = v
       \<and> storage (restart deser (set_pref ser name v s)) slot_name = Some (ser (zset [(name, v)] (state s)))
       \<and> setDensity ser d s = set_pref ser ''tableDensity'' (JStr (density_name d)) s"
proof -
  let ?st = "zset [(name, v)] (state s)"
  have sto: "storage (set_pref ser name v s) slot_name = Some (ser ?st)"
    by (simp add: set_pref_def persist_set_def Let_def)
  have hyd: "hydrate deser (storage (set_pref ser name v s)) = spread initial_prefs ?st"
    using sto assms(2) by (rule hydrate_saved)
  have "distinct (map fst ?st)"
    using assms(1) by (rule distinct_zset)
  then have "map_of (spread initial_prefs ?st) = map_of initial_prefs ++ map_of ?st"
    by (rule map_of_spread)
  then have "map_of (spread initial_prefs ?st) name = Some v"
    by (simp add: zset_single)
  then have "get_pref name dflt (restart deser (set_pref ser name v s)) = v"
    by (simp add: get_pref_def restart_def hyd)
  moreover have "storage (restart deser (set_pref ser name v s)) slot_name = Some (ser ?st)"
    using sto by (simp add: restart_def)
  moreover have "setDensity ser d s = set_pref ser ''tableDensity'' (JStr (density_name d)) s"
    by (simp add: setDensity_def set_pref_def)
  ultimately show ?thesis by blast
qed

theorem preference_survives_restart_witness:
  "(let saved = [(''theme'', JStr ''dark''), (''tableDensity'', JStr ''compact'')];
        ser = (\<lambda>st. if st = saved then ''compact-dark'' else ''other'');
        deser = (\<lambda>txt. if txt = ''compact-dark'' then Some saved else None);
        s = \<lparr>state = initial_prefs, storage = Map.empty\<rparr>
    in distinct (map fst (state s))
       \<and> deser (ser (zset [(''tableDensity'', JStr ''compact'')] (state s)))
           = Some (zset [(''tableDensity'', JStr ''compact'')] (state s))
       \<and> get_pref ''tableDensity'' (JStr ''comfortable'') (restart deser (setDensity ser compact s))
           = JStr ''compact'')"
proof -
  let ?saved = "[(''theme'', JStr ''dark''), (''tableDensity'', JStr ''compact'')]"
  let ?ser = "\<lambda>st. if st = ?saved then ''compact-dark'' else ''other''"
  let ?deser = "\<lambda>txt. if txt = ''compact-dark'' then Some ?saved else None"
  let ?s = "\<lparr>state = initial_prefs, storage = Map.empty\<rparr>"
  have z: "zset [(''tableDensity'', JStr ''compact'')] (state ?s) = ?saved"
    by (simp add: zset_def spread_def initial_prefs_def)
  have d: "distinct (map fst (state ?s))"
    by (simp add: initial_prefs_def)
  have r: "?deser (?ser (zset [(''tableDensity'', JStr ''compact'')] (state ?s)))
           = Some (zset [(''tableDensity'', JStr ''compact'')] (state ?s))"
    by (simp add: zset_def spread_def initial_prefs_def)
  have e: "setDensity ?ser compact ?s = set_pref ?ser ''tableDensity'' (JStr ''compact'') ?s"
    by (simp only: setDensity_def set_pref_def density_name.simps)
  note inst = preference_survives_restart[where s = ?s and deser = ?deser and ser = ?ser
      and name = "''tableDensity''" and v = "JStr ''compact''" and dflt = "JStr ''comfortable''" and d = compact]
  from inst[OF d r]
  have "get_pref ''tableDensity'' (JStr ''comfortable'')
          (restart ?deser (set_pref ?ser ''tableDensity'' (JStr ''compact'') ?s)) = JStr ''compact''"
    by (rule conjunct1)
  then have g: "get_pref ''tableDensity'' (JStr ''comfortable'') (restart ?deser (setDensity ?ser compact ?s))
           = JStr ''compact''"
    by (simp only: e)
  show ?thesis
    unfolding Let_def using d r g by (intro conjI)
qed

section \<open>The toast store\<close>

lemma Toast_effect_simps:
  "now (Toast_effect r) = now r"
  "shown (Toast_effect r) = shown r"
  "pending (Toast_effect r) = pending r \<union> (\<lambda>j. (now r + lifetime, j)) ` shown r"
  by (auto simp: Toast_effect_def shown_def pending_def)

lemma do_removeToast_simps:
  "now (do_removeToast i r) = now r"
  "shown (do_removeToast i r) = shown r - {i}"
  "pending (do_removeToast i r) = pending r \<union> (\<lambda>j. (now r + lifetime, j)) ` (shown r - {i})"
  by (auto simp: do_removeToast_def Toast_effect_def shown_def pending_def removeToast_def)

lemma do_addToast_simps:
  "now (do_addToast u m ty r) = now r"
  "shown (do_addToast u m ty r) = insert u (shown r)"
  "pending (do_addToast u m ty r) = pending r \<union> (\<lambda>j. (now r + lifetime, j)) ` insert u (shown r)"
  by (auto simp: do_addToast_def Toast_effect_def shown_def pending_def addToast_def)

lemma fire_now: "now (fold (\<lambda>(d, i). do_removeToast i) due r) = now r"
  by (induction due arbitrary: r) (auto simp: do_removeToast_simps)

lemma fire_shown: "shown (fold (\<lambda>(d, i). do_removeToast i) due r) = shown r - snd ` set due"
  by (induction due arbitrary: r) (auto simp: do_removeToast_simps)

lemma fire_pending_lower: "pending r \<subseteq> pending (fold (\<lambda>(d, i). do_removeToast i) due r)"
proof (induction due arbitrary: r)
  case Nil
  show ?case by simp
next
  case (Cons p due)
  obtain d i where p: "p = (d, i)" by (cases p)
  have "pending r \<subseteq> pending (do_removeToast i r)"
    by (simp add: do_removeToast_simps)
  also have "\<dots> \<subseteq> pending (fold (\<lambda>(d, i). do_removeToast i) due (do_removeToast i r))"
    by (rule Cons.IH)
  finally show ?case by (simp add: p)
qed

lemma fire_pending_upper:
  "pending (fold (\<lambda>(d, i). do_removeToast i) due r)
     \<subseteq> pending r \<union> (\<lambda>j. (now r + lifetime, j)) ` shown r"
proof (induction due arbitrary: r)
  case Nil
  show ?case by simp
next
  case (Cons p due)
  obtain d i where p: "p = (d, i)" by (cases p)
  let ?r = "do_removeToast i r"
  have "pending (fold (\<lambda>(d, i). do_removeToast i) due ?r)
          \<subseteq> pending ?r \<union> (\<lambda>j. (now ?r + lifetime, j)) ` shown ?r"
    by (rule Cons.IH)
  also have "\<dots> \<subseteq> pending r \<union> (\<lambda>j. (now r + lifetime, j)) ` shown r"
    by (auto simp: do_removeToast_simps)
  finally show ?case by (simp add: p)
qed

lemma tick_now: "now (tick r) = now r + 1"
  by (simp add: tick_def Let_def fire_now)

lemma tick_shown:
  "shown (tick r) = shown r - snd ` {(d, i). (d, i) \<in> pending r \<and> d \<le> now r + 1}"
proof -
  let ?due = "filter (\<lambda>(d, i). d \<le> now r + 1) (timers r)"
  let ?r = "r\<lparr>timers := filter (\<lambda>(d, i). \<not> d \<le> now r + 1) (timers r), now := now r + 1\<rparr>"
  have "tick r = fold (\<lambda>(d, i). do_removeToast i) ?due ?r"
    by (simp add: tick_def Let_def)
  then have "shown (tick r) = shown ?r - snd ` set ?due"
    by (simp only: fire_shown)
  moreover have "shown ?r = shown r"
    by (simp add: shown_def)
  moreover have "set ?due = {(d, i). (d, i) \<in> pending r \<and> d \<le> now r + 1}"
    by (auto simp: pending_def)
  ultimately show ?thesis by simp
qed

lemma tick_pending_lower:
  "(d, i) \<in> pending r \<Longrightarrow> \<not> d \<le> now r + 1 \<Longrightarrow> (d, i) \<in> pending (tick r)"
proof -
  assume a: "(d, i) \<in> pending r" "\<not> d \<le> now r + 1"
  let ?r = "r\<lparr>timers := filter (\<lambda>(d, i). \<not> d \<le> now r + 1) (timers r), now := now r + 1\<rparr>"
  have "(d, i) \<in> pending ?r" using a by (simp add: pending_def)
  then show ?thesis
    using fire_pending_lower[of ?r "filter (\<lambda>(d, i). d \<le> now r + 1) (timers r)"]
    by (auto simp: tick_def Let_def)
qed

lemma tick_pending_upper:
  "(d, i) \<in> pending (tick r) \<Longrightarrow>
     ((d, i) \<in> pending r \<and> \<not> d \<le> now r + 1) \<or> (d = now r + 1 + lifetime \<and> i \<in> shown r)"
proof -
  assume a: "(d, i) \<in> pending (tick r)"
  let ?r = "r\<lparr>timers := filter (\<lambda>(d, i). \<not> d \<le> now r + 1) (timers r), now := now r + 1\<rparr>"
  have "(d, i) \<in> pending ?r \<union> (\<lambda>j. (now ?r + lifetime, j)) ` shown ?r"
    using a fire_pending_upper[of "filter (\<lambda>(d, i). d \<le> now r + 1) (timers r)" ?r]
    by (auto simp: tick_def Let_def)
  then show ?thesis
    by (auto simp: pending_def shown_def)
qed

lemma lifetime_pos: "0 < lifetime"
  by (simp add: lifetime_def)

subsection \<open>Every pending timer lies in the future\<close>

lemma future_tick: "future r \<Longrightarrow> future (tick r)"
  unfolding future_def using lifetime_pos
  by (auto simp: tick_now dest!: tick_pending_upper)

lemma future_addToast: "future r \<Longrightarrow> future (do_addToast u m ty r)"
  unfolding future_def using lifetime_pos
  by (auto simp: do_addToast_simps)

lemma future_removeToast: "future r \<Longrightarrow> future (do_removeToast j r)"
  unfolding future_def using lifetime_pos
  by (auto simp: do_removeToast_simps)

lemma toggle_simps:
  "now (r\<lparr>ui := toggleSidebar (ui r)\<rparr>) = now r"
  "shown (r\<lparr>ui := toggleSidebar (ui r)\<rparr>) = shown r"
  "pending (r\<lparr>ui := toggleSidebar (ui r)\<rparr>) = pending r"
  by (simp_all add: toggleSidebar_def shown_def pending_def)

lemma future_advance: "future r \<Longrightarrow> future (advance n r)"
  by (induction n arbitrary: r) (simp_all add: future_tick)

lemma future_toggle: "future (r\<lparr>ui := toggleSidebar (ui r)\<rparr>) = future r"
  by (simp add: future_def toggle_simps)

lemma future_step: "future r \<Longrightarrow> future (step e r)"
  by (cases e) (simp_all add: future_addToast future_removeToast future_advance future_toggle)

lemma future_run: "future r \<Longrightarrow> future (run evs r)"
  unfolding run_def by (induction evs arbitrary: r) (simp_all add: future_step)

lemma future_mounted: "future mounted"
  by (simp add: future_def pending_def mounted_def)

subsection \<open>The clock\<close>

lemma now_advance: "now (advance n r) = now r + n"
  by (induction n arbitrary: r) (simp_all add: tick_now)

lemma now_step: "now (step e r) = now r + elapsed [e]"
  by (cases e) (simp_all add: do_addToast_simps do_removeToast_simps toggle_simps now_advance)

lemma elapsed_Cons: "elapsed (e # evs) = elapsed [e] + elapsed evs"
  by (cases e) simp_all

lemma now_run: "now (run evs r) = now r + elapsed evs"
  unfolding run_def
proof (induction evs arbitrary: r)
  case Nil
  show ?case by simp
next
  case (Cons e evs)
  show ?case
    using Cons.IH[of "step e r"] elapsed_Cons[of e evs] by (simp add: now_step)
qed

subsection \<open>A shown toast has a timer\<close>

lemma expiring_tick: "expiring i D r \<Longrightarrow> expiring i D (tick r)"
proof -
  assume a: "expiring i D r"
  have f: "future (tick r)" using a by (simp add: expiring_def future_tick)
  have "\<exists>d\<le>D. (d, i) \<in> pending (tick r)" if s: "i \<in> shown (tick r)"
  proof -
    from s have 1: "i \<in> shown r" and 2: "i \<notin> snd ` {(d, i). (d, i) \<in> pending r \<and> d \<le> now r + 1}"
      by (simp_all add: tick_shown)
    from a 1 obtain d where d: "d \<le> D" "(d, i) \<in> pending r"
      by (auto simp: expiring_def)
    from 2 d(2) have "\<not> d \<le> now r + 1" by force
    with d(2) have "(d, i) \<in> pending (tick r)" by (rule tick_pending_lower)
    with d(1) show ?thesis by blast
  qed
  with f show ?thesis by (simp add: expiring_def)
qed

lemma expiring_addToast: "u \<noteq> i \<Longrightarrow> expiring i D r \<Longrightarrow> expiring i D (do_addToast u m ty r)"
  by (auto simp: expiring_def future_addToast do_addToast_simps)

lemma expiring_removeToast: "expiring i D r \<Longrightarrow> expiring i D (do_removeToast j r)"
  by (auto simp: expiring_def future_removeToast do_removeToast_simps)

lemma expiring_advance: "expiring i D r \<Longrightarrow> expiring i D (advance n r)"
  by (induction n arbitrary: r) (simp_all add: expiring_tick)

lemma expiring_step: "i \<notin> pushes [e] \<Longrightarrow> expiring i D r \<Longrightarrow> expiring i D (step e r)"
proof (cases e)
  case (Push u m ty)
  assume "i \<notin> pushes [e]" "expiring i D r"
  then show ?thesis using Push by (simp add: expiring_addToast)
next
  case (Dismiss j)
  assume "expiring i D r"
  then show ?thesis using Dismiss by (simp add: expiring_removeToast)
next
  case Toggle
  assume "expiring i D r"
  then show ?thesis using Toggle by (simp add: expiring_def future_toggle toggle_simps)
next
  case (Wait n)
  assume "expiring i D r"
  then show ?thesis using Wait by (simp add: expiring_advance)
qed

lemma pushes_Cons: "pushes (e # evs) = pushes [e] \<union> pushes evs"
  by (cases e) simp_all

lemma expiring_run: "i \<notin> pushes evs \<Longrightarrow> expiring i D r \<Longrightarrow> expiring i D (run evs r)"
  unfolding run_def
proof (induction evs arbitrary: r)
  case Nil
  then show ?case by simp
next
  case (Cons e evs)
  from Cons.prems(1) have 1: "i \<notin> pushes [e]" and 2: "i \<notin> pushes evs"
    using pushes_Cons[of e evs] by auto
  from 1 Cons.prems(2) have "expiring i D (step e r)" by (rule expiring_step)
  with 2 show ?case by (simp add: Cons.IH)
qed

lemma expiring_start: "future r \<Longrightarrow> expiring i (now r + lifetime) (do_addToast i m ty r)"
  by (auto simp: expiring_def future_addToast do_addToast_simps)

lemma expiring_gone: "expiring i D r \<Longrightarrow> D \<le> now r \<Longrightarrow> i \<notin> shown r"
  by (fastforce simp: expiring_def future_def)

subsection \<open>An identifier never pushed\<close>

lemma unknown_tick: "unknown i r \<Longrightarrow> unknown i (tick r)"
  unfolding unknown_def
  by (auto simp: tick_shown dest!: tick_pending_upper)

lemma unknown_addToast: "u \<noteq> i \<Longrightarrow> unknown i r \<Longrightarrow> unknown i (do_addToast u m ty r)"
  by (auto simp: unknown_def do_addToast_simps)

lemma unknown_removeToast: "unknown i r \<Longrightarrow> unknown i (do_removeToast j r)"
  by (auto simp: unknown_def do_removeToast_simps)

lemma unknown_advance: "unknown i r \<Longrightarrow> unknown i (advance n r)"
  by (induction n arbitrary: r) (simp_all add: unknown_tick)

lemma unknown_toggle: "unknown i (r\<lparr>ui := toggleSidebar (ui r)\<rparr>) = unknown i r"
  by (simp add: unknown_def toggle_simps)

lemma unknown_step: "i \<notin> pushes [e] \<Longrightarrow> unknown i r \<Longrightarrow> unknown i (step e r)"
  by (cases e) (simp_all add: unknown_addToast unknown_removeToast unknown_advance unknown_toggle)

lemma unknown_run: "i \<notin> pushes evs \<Longrightarrow> unknown i r \<Longrightarrow> unknown i (run evs r)"
  unfolding run_def
proof (induction evs arbitrary: r)
  case Nil
  then show ?case by simp
next
  case (Cons e evs)
  from Cons.prems(1) have 1: "i \<notin> pushes [e]" and 2: "i \<notin> pushes evs"
    using pushes_Cons[of e evs] by auto
  from 1 Cons.prems(2) have "unknown i (step e r)" by (rule unknown_step)
  with 2 show ?case by (simp add: Cons.IH)
qed

lemma unknown_mounted: "unknown i mounted"
  by (simp add: unknown_def shown_def pending_def mounted_def initial_ui_def)

subsection \<open>A toast stays until its lifetime is over\<close>

lemma kept_tick: "kept i T r \<Longrightarrow> kept i T (tick r)"
proof -
  assume a: "kept i T r"
  have 1: "T \<le> now (tick r)" using a by (simp add: kept_def tick_now)
  have 2: "T + lifetime \<le> d" if "(d, i) \<in> pending (tick r)" for d
    using tick_pending_upper[OF that] a by (auto simp: kept_def)
  have 3: "i \<in> shown (tick r)" if "now (tick r) < T + lifetime"
  proof -
    from that have n: "now r + 1 < T + lifetime" by (simp add: tick_now)
    with a have "i \<in> shown r" by (simp add: kept_def)
    moreover have "i \<notin> snd ` {(d, i). (d, i) \<in> pending r \<and> d \<le> now r + 1}"
      using a n by (fastforce simp: kept_def)
    ultimately show ?thesis by (simp add: tick_shown)
  qed
  from 1 2 3 show ?thesis by (auto simp: kept_def)
qed

lemma kept_addToast: "kept i T r \<Longrightarrow> kept i T (do_addToast u m ty r)"
  by (auto simp: kept_def do_addToast_simps)

lemma kept_removeToast: "j \<noteq> i \<Longrightarrow> kept i T r \<Longrightarrow> kept i T (do_removeToast j r)"
  by (auto simp: kept_def do_removeToast_simps)

lemma kept_advance: "kept i T r \<Longrightarrow> kept i T (advance n r)"
  by (induction n arbitrary: r) (simp_all add: kept_tick)

lemma kept_toggle: "kept i T (r\<lparr>ui := toggleSidebar (ui r)\<rparr>) = kept i T r"
  by (simp add: kept_def toggle_simps)

lemma kept_step: "e \<noteq> Dismiss i \<Longrightarrow> kept i T r \<Longrightarrow> kept i T (step e r)"
  by (cases e) (auto simp: kept_addToast kept_removeToast kept_advance kept_toggle)

lemma kept_run: "Dismiss i \<notin> set evs \<Longrightarrow> kept i T r \<Longrightarrow> kept i T (run evs r)"
  unfolding run_def
proof (induction evs arbitrary: r)
  case Nil
  then show ?case by simp
next
  case (Cons e evs)
  from Cons.prems(1) have 1: "e \<noteq> Dismiss i" and 2: "Dismiss i \<notin> set evs"
    by auto
  from 1 Cons.prems(2) have "kept i T (step e r)" by (rule kept_step)
  with 2 show ?case by (simp add: Cons.IH)
qed

lemma kept_start: "unknown i r \<Longrightarrow> kept i (now r) (do_addToast i m ty r)"
  by (auto simp: kept_def unknown_def do_addToast_simps)

lemma run_split:
  "run (pre @ Push i m ty # post) r = run post (do_addToast i m ty (run pre r))"
  by (simp add: run_def)

lemma removeToast_idem: "removeToast i (removeToast i s) = removeToast i s"
  by (simp add: removeToast_def)

lemma removeToast_absent: "i \<notin> toast_id ` set (toasts s) \<Longrightarrow> removeToast i s = s"
proof -
  assume "i \<notin> toast_id ` set (toasts s)"
  then have "filter (\<lambda>t. toast_id t \<noteq> i) (toasts s) = toasts s"
    by (intro filter_True) auto
  then show ?thesis by (simp add: removeToast_def)
qed

text \<open>
  C5. In a history of the mounted component, a toast pushed with an identifier \<open>i\<close> that
  no other push uses is shown at every moment less than the lifetime after the push,
  unless it is dismissed by hand, and is gone at every moment from the lifetime on,
  dismissed or not; removing an identifier twice is the same as removing it once, and
  removing one that is not in the list changes nothing. The lifetime is 5000 ms.
\<close>

theorem toast_lifetime:
  assumes "i \<notin> pushes pre" and "i \<notin> pushes post"
  shows "(elapsed post < lifetime \<and> Dismiss i \<notin> set post \<longrightarrow>
            i \<in> shown (run (pre @ Push i m ty # post) mounted))
       \<and> (lifetime \<le> elapsed post \<longrightarrow> i \<notin> shown (run (pre @ Push i m ty # post) mounted))
       \<and> removeToast i (removeToast i s) = removeToast i s
       \<and> (i \<notin> toast_id ` set (toasts s) \<longrightarrow> removeToast i s = s)
       \<and> lifetime = 5000"
proof -
  let ?r1 = "run pre mounted"
  let ?r2 = "do_addToast i m ty ?r1"
  let ?r3 = "run post ?r2"
  have r3: "run (pre @ Push i m ty # post) mounted = ?r3" by (rule run_split)
  have n3: "now ?r3 = now ?r1 + elapsed post"
    by (simp add: now_run do_addToast_simps)
  have present: "i \<in> shown ?r3" if "elapsed post < lifetime" "Dismiss i \<notin> set post"
  proof -
    have "unknown i ?r1" using assms(1) unknown_mounted by (rule unknown_run)
    then have "kept i (now ?r1) ?r2" by (rule kept_start)
    with that(2) have "kept i (now ?r1) ?r3" by (rule kept_run)
    with that(1) n3 show ?thesis by (simp add: kept_def)
  qed
  have absent: "i \<notin> shown ?r3" if "lifetime \<le> elapsed post"
  proof -
    have "future ?r1" using future_mounted by (rule future_run)
    then have "expiring i (now ?r1 + lifetime) ?r2" by (rule expiring_start)
    with assms(2) have "expiring i (now ?r1 + lifetime) ?r3" by (rule expiring_run)
    moreover have "now ?r1 + lifetime \<le> now ?r3" using that n3 by simp
    ultimately show ?thesis by (rule expiring_gone)
  qed
  show ?thesis
    using present absent removeToast_idem[of i s] removeToast_absent[of i s]
    by (simp add: r3 lifetime_def)
qed

theorem toast_lifetime_witness:
  "''t1'' \<notin> pushes [Push ''t0'' ''saved'' success, Wait 1200]
   \<and> ''t1'' \<notin> pushes [Wait 4999]
   \<and> ''t1'' \<notin> pushes [Wait 2000, Push ''t2'' ''again'' info, Wait 3000]
   \<and> ''t1'' \<in> shown (run ([Push ''t0'' ''saved'' success, Wait 1200] @ Push ''t1'' ''failed'' error # [Wait 4999]) mounted)
   \<and> ''t1'' \<notin> shown (run ([Push ''t0'' ''saved'' success, Wait 1200] @ Push ''t1'' ''failed'' error
                              # [Wait 2000, Push ''t2'' ''again'' info, Wait 3000]) mounted)"
proof -
  have 1: "''t1'' \<notin> pushes [Push ''t0'' ''saved'' success, Wait 1200]" by simp
  have 2: "''t1'' \<notin> pushes [Wait 4999]" by simp
  have 3: "''t1'' \<notin> pushes [Wait 2000, Push ''t2'' ''again'' info, Wait 3000]" by simp
  have 4: "elapsed [Wait 4999] < lifetime \<and> Dismiss ''t1'' \<notin> set [Wait 4999]"
    by (simp add: lifetime_def)
  have 5: "lifetime \<le> elapsed [Wait 2000, Push ''t2'' ''again'' info, Wait 3000]"
    by (simp add: lifetime_def)
  from toast_lifetime[OF 1 2, of "''failed''" error] 4
  have a: "''t1'' \<in> shown (run ([Push ''t0'' ''saved'' success, Wait 1200] @ Push ''t1'' ''failed'' error # [Wait 4999]) mounted)"
    by blast
  from toast_lifetime[OF 1 3, of "''failed''" error] 5
  have b: "''t1'' \<notin> shown (run ([Push ''t0'' ''saved'' success, Wait 1200] @ Push ''t1'' ''failed'' error
                              # [Wait 2000, Push ''t2'' ''again'' info, Wait 3000]) mounted)"
    by blast
  from 1 2 3 a b show ?thesis by (intro conjI)
qed

section \<open>The fetch life cycle\<close>

lemma single_flightD:
  "single_flight c \<Longrightarrow> in_flight c k \<le> 1"
  "single_flight c \<Longrightarrow> (in_flight c k = 1) = (entry_status (entries c k) = Fetching)"
  by (simp_all add: single_flight_def)

lemma single_flight_fetch:
  assumes "single_flight c"
  shows "single_flight (cache_fetch k c)"
proof (cases "entry_status (entries c k) = Fetching")
  case True
  then show ?thesis using assms by (simp add: cache_fetch_def)
next
  case False
  have "in_flight c k \<noteq> 1" using single_flightD(2)[OF assms, of k] False by simp
  moreover have "in_flight c k \<le> 1" using assms by (rule single_flightD(1))
  ultimately have z: "in_flight c k = 0" by simp
  show ?thesis
    unfolding single_flight_def
  proof (intro allI)
    fix k'
    show "in_flight (cache_fetch k c) k' \<le> 1 \<and>
          (in_flight (cache_fetch k c) k' = 1 \<longleftrightarrow> entry_status (entries (cache_fetch k c) k') = Fetching)"
    proof (cases "k' = k")
      case True
      then show ?thesis using False z by (simp add: cache_fetch_def)
    next
      case neq: False
      then show ?thesis
        using False single_flightD[OF assms, of k'] by (simp add: cache_fetch_def)
    qed
  qed
qed

lemma single_flight_settle:
  assumes "single_flight c"
  shows "single_flight (settle k outcome t c)"
proof (cases "in_flight c k = 0")
  case True
  then show ?thesis using assms by (simp add: settle_def)
next
  case False
  then have o: "in_flight c k = 1" using single_flightD(1)[OF assms, of k] by simp
  show ?thesis
    unfolding single_flight_def
  proof (intro allI)
    fix k'
    show "in_flight (settle k outcome t c) k' \<le> 1 \<and>
          (in_flight (settle k outcome t c) k' = 1 \<longleftrightarrow> entry_status (entries (settle k outcome t c) k') = Fetching)"
    proof (cases "k' = k")
      case True
      then show ?thesis using o by (cases outcome) (simp_all add: settle_def)
    next
      case neq: False
      then show ?thesis
        using o single_flightD[OF assms, of k'] by (simp add: settle_def Let_def)
    qed
  qed
qed

lemma single_flight_go_stale:
  assumes "single_flight c"
  shows "single_flight (go_stale k c)"
proof (cases "entry_status (entries c k) = Fresh")
  case False
  then show ?thesis using assms by (simp add: go_stale_def)
next
  case True
  show ?thesis
    unfolding single_flight_def
  proof (intro allI)
    fix k'
    show "in_flight (go_stale k c) k' \<le> 1 \<and>
          (in_flight (go_stale k c) k' = 1 \<longleftrightarrow> entry_status (entries (go_stale k c) k') = Fetching)"
    proof (cases "k' = k")
      case eq: True
      then show ?thesis using True single_flightD[OF assms, of k] by (simp add: go_stale_def)
    next
      case neq: False
      then show ?thesis
        using True single_flightD[OF assms, of k'] by (simp add: go_stale_def)
    qed
  qed
qed

lemma single_flight_step: "single_flight c \<Longrightarrow> single_flight (cache_step e c)"
  by (cases e) (simp_all add: single_flight_fetch single_flight_settle single_flight_go_stale)

lemma single_flight_run: "single_flight c \<Longrightarrow> single_flight (cache_run evs c)"
  unfolding cache_run_def by (induction evs arbitrary: c) (simp_all add: single_flight_step)

lemma single_flight_empty: "single_flight empty_cache"
  by (simp add: single_flight_def empty_cache_def idle_entry_def)

lemma fetch_marks: "entry_status (entries (cache_fetch k c) k) = Fetching"
  by (simp add: cache_fetch_def)

lemma fetch_attach: "entry_status (entries c k) = Fetching \<Longrightarrow> cache_fetch k c = c"
  by (simp add: cache_fetch_def)

text \<open>
  C2. After any history of fetch requests, completions and staleness transitions, in
  whatever order they interleave, at most one loader runs for a key, and one runs
  exactly when the entry is fetching; a fetch request for a fetching entry leaves the
  cache as it is, so a second request made while the first is in flight does not invoke
  the loader again.
\<close>

theorem at_most_one_in_flight:
  "in_flight (cache_run evs empty_cache) k \<le> 1
   \<and> (in_flight (cache_run evs empty_cache) k = 1
        \<longleftrightarrow> entry_status (entries (cache_run evs empty_cache) k) = Fetching)
   \<and> (entry_status (entries (cache_run evs empty_cache) k) = Fetching \<longrightarrow>
        cache_fetch k (cache_run evs empty_cache) = cache_run evs empty_cache)
   \<and> cache_fetch k (cache_fetch k (cache_run evs empty_cache)) = cache_fetch k (cache_run evs empty_cache)
   \<and> loader_calls (cache_run (evs @ [Fetch k, Fetch k]) empty_cache) k
        = loader_calls (cache_run (evs @ [Fetch k]) empty_cache) k"
proof -
  let ?c = "cache_run evs empty_cache"
  have inv: "single_flight ?c"
    using single_flight_empty by (rule single_flight_run)
  have twice: "cache_fetch k (cache_fetch k ?c) = cache_fetch k ?c"
    using fetch_marks[of k ?c] by (rule fetch_attach)
  have "cache_run (evs @ [Fetch k, Fetch k]) empty_cache = cache_fetch k (cache_fetch k ?c)"
    "cache_run (evs @ [Fetch k]) empty_cache = cache_fetch k ?c"
    by (simp_all add: cache_run_def)
  then show ?thesis
    using single_flightD[OF inv, of k] twice by (simp add: fetch_attach)
qed

theorem at_most_one_in_flight_witness:
  "(let k = [JStr ''dashboard''];
        evs = [Fetch k, Fetch k, Settle k (Inr JNull) 5, Fetch k]
    in entry_status (entries (cache_run evs empty_cache) k) = Fetching
       \<and> in_flight (cache_run evs empty_cache) k = 1
       \<and> cache_fetch k (cache_run evs empty_cache) = cache_run evs empty_cache
       \<and> loader_calls (cache_run evs empty_cache) k = 2)"
proof -
  let ?k = "[JStr ''dashboard'']"
  let ?evs = "[Fetch ?k, Fetch ?k, Settle ?k (Inr JNull) 5, Fetch ?k]"
  have s: "entry_status (entries (cache_run ?evs empty_cache) ?k) = Fetching"
    by (simp add: cache_run_def fetch_marks)
  have l: "loader_calls (cache_run ?evs empty_cache) ?k = 2"
    by (simp add: cache_run_def cache_fetch_def settle_def empty_cache_def idle_entry_def)
  from at_most_one_in_flight[of ?evs ?k] s
  have "in_flight (cache_run ?evs empty_cache) ?k = 1
        \<and> cache_fetch ?k (cache_run ?evs empty_cache) = cache_run ?evs empty_cache"
    by blast
  with s l show ?thesis by (simp only: Let_def simp_thms)
qed

lemma settle_failure:
  "in_flight c k \<noteq> 0 \<Longrightarrow>
   entries (settle k (Inl f) t c) k = (entries c k)\<lparr>entry_status := Error, entry_error := Some f\<rparr>"
  by (simp add: settle_def)

lemma fetch_in_flight: "single_flight c \<Longrightarrow> in_flight (cache_fetch k c) k = 1"
  using single_flightD(2)[OF single_flight_fetch, of c k k] by (simp add: fetch_marks)

text \<open>
  C4. A fetch that fails keeps the entry's value and the time of its last successful
  fetch, sets the status to error and records the failure; after a successful fetch of
  \<open>v\<close>, a second fetch that fails leaves the value \<open>v\<close> with status error.
\<close>

theorem stale_while_error:
  assumes "single_flight c"
  shows "(let c' = cache_run [Fetch k, Settle k (Inl f) t] c
          in entry_value (entries c' k) = entry_value (entries c k)
             \<and> lastFetchedAt (entries c' k) = lastFetchedAt (entries c k)
             \<and> entry_status (entries c' k) = Error
             \<and> entry_error (entries c' k) = Some f)
       \<and> (let c' = cache_run [Fetch k, Settle k (Inr v) t1, Fetch k, Settle k (Inl f) t2] c
          in entry_value (entries c' k) = Some v
             \<and> lastFetchedAt (entries c' k) = Some t1
             \<and> entry_status (entries c' k) = Error
             \<and> entry_error (entries c' k) = Some f)"
proof -
  have fail: "entries (cache_run [Fetch k, Settle k (Inl f) t] d) k
                = (entries d k)\<lparr>entry_status := Error, entry_error := Some f\<rparr>"
    if "single_flight d" for d t
  proof -
    have "in_flight (cache_fetch k d) k \<noteq> 0" using fetch_in_flight[OF that, of k] by simp
    then have "entries (settle k (Inl f) t (cache_fetch k d)) k
                 = (entries (cache_fetch k d) k)\<lparr>entry_status := Error, entry_error := Some f\<rparr>"
      by (rule settle_failure)
    then show ?thesis by (simp add: cache_run_def cache_fetch_def)
  qed
  let ?d = "cache_run [Fetch k, Settle k (Inr v) t1] c"
  have d: "single_flight ?d" using assms by (rule single_flight_run)
  have "in_flight (cache_fetch k c) k \<noteq> 0" using fetch_in_flight[OF assms, of k] by simp
  then have dv: "entry_value (entries ?d k) = Some v" "lastFetchedAt (entries ?d k) = Some t1"
    by (simp_all add: cache_run_def settle_def)
  have split: "cache_run [Fetch k, Settle k (Inr v) t1, Fetch k, Settle k (Inl f) t2] c
                 = cache_run [Fetch k, Settle k (Inl f) t2] ?d"
    by (simp add: cache_run_def)
  show ?thesis
    unfolding Let_def split by (simp add: fail[OF assms] fail[OF d] dv)
qed

theorem stale_while_error_witness:
  "single_flight empty_cache
   \<and> (let k = [JStr ''dashboard''];
          c' = cache_run [Fetch k, Settle k (Inr (JObj [(''a'', JNum 1)])) 10,
                          Fetch k, Settle k (Inl (ApiError 500 ''down'')) 20] empty_cache
      in entry_value (entries c' k) = Some (JObj [(''a'', JNum 1)])
         \<and> entry_status (entries c' k) = Error
         \<and> entry_error (entries c' k) = Some (ApiError 500 ''down''))"
proof -
  have "let c' = cache_run [Fetch [JStr ''dashboard''], Settle [JStr ''dashboard''] (Inr (JObj [(''a'', JNum 1)])) 10,
                          Fetch [JStr ''dashboard''], Settle [JStr ''dashboard''] (Inl (ApiError 500 ''down'')) 20] empty_cache
      in entry_value (entries c' [JStr ''dashboard'']) = Some (JObj [(''a'', JNum 1)])
         \<and> lastFetchedAt (entries c' [JStr ''dashboard'']) = Some 10
         \<and> entry_status (entries c' [JStr ''dashboard'']) = Error
         \<and> entry_error (entries c' [JStr ''dashboard'']) = Some (ApiError 500 ''down'')"
    using stale_while_error[OF single_flight_empty, of "[JStr ''dashboard'']" "ApiError 500 ''down''" _ "JObj [(''a'', JNum 1)]" 10 20]
    by (rule conjunct2)
  then show ?thesis
    using single_flight_empty by (simp only: Let_def simp_thms)
qed

end
